theory Spec2Isabelle
  imports Main "HOL-Library.Multiset"
begin

section \<open>Python values\<close>

text \<open>
  A Python \<open>str\<close> is a sequence of Unicode code points, so a string is a list of
  code points (natural numbers) and \<open>len\<close> is the length of the list.  The
  function \<open>ascii\<close> turns an ASCII literal into such a string.
\<close>

type_synonym codepoint = nat
type_synonym pystr = "codepoint list"

definition ascii :: "string \<Rightarrow> pystr" where
  "ascii s = map of_char s"

text \<open>The exceptions that the program and the library calls it makes can raise.\<close>

datatype error =
    ValueError
  | FileNotFoundError
  | KeyError
  | LookupError
  | UnicodeError
  | OSError

subsection \<open>The Unicode decimal digits\<close>

text \<open>
  In a \<open>str\<close> pattern without the \<open>re.ASCII\<close> flag, \<open>\d\<close> matches
  every character of the Unicode category Nd, and \<open>int\<close> reads every such character
  as its decimal value.  The table is the one of Unicode 14.0 (CPython 3.11): ranges of ten
  consecutive code points with the values 0 to 9, listed by their first code point, and
  the mathematical digits U+1D7CE to U+1D7FF, five such runs back to back.  Only the
  lemmas that speak of ASCII depend on the entries of the table.
\<close>

definition decimal_range_starts :: "codepoint list" where
  "decimal_range_starts =
    [0x30, 0x660, 0x6F0, 0x7C0, 0x966, 0x9E6, 0xA66, 0xAE6, 0xB66, 0xBE6, 0xC66, 0xCE6,
     0xD66, 0xDE6, 0xE50, 0xED0, 0xF20, 0x1040, 0x1090, 0x17E0, 0x1810, 0x1946, 0x19D0,
     0x1A80, 0x1A90, 0x1B50, 0x1BB0, 0x1C40, 0x1C50, 0xA620, 0xA8D0, 0xA900, 0xA9D0,
     0xA9F0, 0xAA50, 0xABF0, 0xFF10, 0x104A0, 0x10D30, 0x11066, 0x110F0, 0x11136,
     0x111D0, 0x112F0, 0x11450, 0x114D0, 0x11650, 0x116C0, 0x11730, 0x118E0, 0x11950,
     0x11C50, 0x11D50, 0x11DA0, 0x16A60, 0x16AC0, 0x16B50, 0x1E140, 0x1E2F0, 0x1E950,
     0x1FBF0]"

definition unicode_decimal :: "codepoint \<Rightarrow> nat option" where
  "unicode_decimal c =
    (case find (\<lambda>s. s \<le> c \<and> c < s + 10) decimal_range_starts of
       Some s \<Rightarrow> Some (c - s)
     | None \<Rightarrow>
        if 0x1D7CE \<le> c \<and> c < 0x1D800 then Some ((c - 0x1D7CE) mod 10) else None)"

text \<open>The character class \<open>\d\<close>.\<close>

definition is_decimal_digit :: "codepoint \<Rightarrow> bool" where
  "is_decimal_digit c = (unicode_decimal c \<noteq> None)"

definition is_ascii_digit :: "codepoint \<Rightarrow> bool" where
  "is_ascii_digit c = (48 \<le> c \<and> c \<le> 57)"

subsection \<open>\<open>int(str)\<close> and \<open>str(int)\<close>\<close>

text \<open>
  \<open>int(s)\<close> in base ten, as CPython reads a string: every code point from 127 on
  is first replaced by a space when it is Unicode white space, by its ASCII digit when it
  is a decimal digit, and by a question mark otherwise; then the ASCII text is read as
  white space, an optional sign, digits with single underscores between them, and white
  space up to the end.  Anything else raises \<open>ValueError\<close>.  Integers are
  unbounded; the interpreter's configurable limit on the number of digits of a
  conversion (\<open>sys.set_int_max_str_digits\<close>) is a setting of the run, not of the
  program, and is not part of the model.
\<close>

definition is_unicode_space :: "codepoint \<Rightarrow> bool" where
  "is_unicode_space c =
    (c \<in> set [0x85, 0xA0, 0x1680, 0x2028, 0x2029, 0x202F, 0x205F, 0x3000]
     \<or> (0x2000 \<le> c \<and> c \<le> 0x200A))"

definition to_ascii :: "codepoint \<Rightarrow> codepoint" where
  "to_ascii c =
    (if c < 127 then c
     else if is_unicode_space c then 32
     else case unicode_decimal c of Some d \<Rightarrow> 48 + d | None \<Rightarrow> 63)"

definition is_c_space :: "codepoint \<Rightarrow> bool" where
  "is_c_space c = (c = 32 \<or> (9 \<le> c \<and> c \<le> 13))"

text \<open>
  The digits after the first: \<open>prev\<close> is the character read last, \<open>acc\<close> the value
  so far.  Two underscores in a row and an underscore at the end are refused.  The result
  is the value and the text that follows the digits.
\<close>

fun scan_digits :: "codepoint \<Rightarrow> nat \<Rightarrow> pystr \<Rightarrow> (nat \<times> pystr) option" where
  "scan_digits prev acc [] = (if prev = 95 then None else Some (acc, []))"
| "scan_digits prev acc (c # cs) =
    (if is_ascii_digit c then scan_digits c (10 * acc + (c - 48)) cs
     else if c = 95 then (if prev = 95 then None else scan_digits c acc cs)
     else if prev = 95 then None
     else Some (acc, c # cs))"

definition py_int :: "pystr \<Rightarrow> error + int" where
  "py_int s =
    (let a = dropWhile is_c_space (map to_ascii s);
         neg = (case a of [] \<Rightarrow> False | c # _ \<Rightarrow> c = 45);
         b = (case a of [] \<Rightarrow> [] | c # cs \<Rightarrow> if c = 43 \<or> c = 45 then cs else a)
     in case b of
          [] \<Rightarrow> Inl ValueError
        | c # cs \<Rightarrow>
            if \<not> is_ascii_digit c then Inl ValueError
            else
              (case scan_digits c (c - 48) cs of
                 None \<Rightarrow> Inl ValueError
               | Some (n, rest) \<Rightarrow>
                   if dropWhile is_c_space rest = []
                   then Inr (if neg then - int n else int n)
                   else Inl ValueError))"

text \<open>\<open>str(n)\<close>: the decimal digits, most significant first, after a minus sign
  when \<open>n\<close> is negative.\<close>

fun py_str_digits :: "nat \<Rightarrow> pystr" where
  "py_str_digits n =
    (if n < 10 then [48 + n] else py_str_digits (n div 10) @ [48 + n mod 10])"

declare py_str_digits.simps [simp del]

definition py_str :: "int \<Rightarrow> pystr" where
  "py_str n = (if n < 0 then 45 # py_str_digits (nat (- n)) else py_str_digits (nat n))"

section \<open>The tokens\<close>

text \<open>
  The frozen dataclass \<open>NumberToken\<close> has the one field \<open>text\<close>; \<open>value\<close>
  and \<open>length\<close> are properties computed from it at each access.  The class checks
  nothing: any string can be the text of a token, and \<open>value\<close> raises
  \<open>ValueError\<close> where \<open>int\<close> does.
\<close>

record NumberToken =
  "text" :: pystr

definition NumberToken_value :: "NumberToken \<Rightarrow> error + int" where
  "NumberToken_value t = py_int (text t)"

definition NumberToken_length :: "NumberToken \<Rightarrow> int" where
  "NumberToken_length t = int (length (text t))"

section \<open>The tokenizer\<close>

text \<open>
  The pattern is \<open>(?<!\d)(\d+)(?!\d)\<close>.  A match attempt at position \<open>pos\<close>
  first checks the lookbehind: there is no character before \<open>pos\<close>, or it is not a
  digit.  Then \<open>\d+\<close> takes as many digits as there are (it is greedy) and gives them
  back one by one, down to one digit, until the lookahead holds at the end of the match:
  there is no character there, or it is not a digit.  The result is the end of the
  match.
\<close>

definition lookbehind_not_digit :: "pystr \<Rightarrow> nat \<Rightarrow> bool" where
  "lookbehind_not_digit s pos = (pos = 0 \<or> \<not> is_decimal_digit (s ! (pos - 1)))"

definition lookahead_not_digit :: "pystr \<Rightarrow> nat \<Rightarrow> bool" where
  "lookahead_not_digit s e = (length s \<le> e \<or> \<not> is_decimal_digit (s ! e))"

definition greedy_digits :: "pystr \<Rightarrow> nat \<Rightarrow> nat" where
  "greedy_digits s pos = length (takeWhile is_decimal_digit (drop pos s))"

definition match_at :: "pystr \<Rightarrow> nat \<Rightarrow> nat option" where
  "match_at s pos =
    (if lookbehind_not_digit s pos
     then find (lookahead_not_digit s)
            (map (\<lambda>n. pos + n) (rev [1..<Suc (greedy_digits s pos)]))
     else None)"

text \<open>
  \<open>finditer\<close> yields the spans (start, end) of the matches from left to right: it
  tries each position in turn and, after a match, goes on at the end of the match.  No
  match of this pattern is empty, so the search position always advances.
\<close>

function finditer :: "pystr \<Rightarrow> nat \<Rightarrow> (nat \<times> nat) list" where
  "finditer s pos =
    (if length s < pos then []
     else case match_at s pos of
            Some e \<Rightarrow> (pos, e) # finditer s e
          | None \<Rightarrow> finditer s (pos + 1))"
  by pat_completeness auto
termination
proof (relation "measure (\<lambda>(s, pos). Suc (length s) - pos)")
  show "wf (measure (\<lambda>(s, pos). Suc (length s) - pos))"
    by simp
next
  fix s :: pystr and pos e :: nat
  assume le: "\<not> length s < pos" and m: "match_at s pos = Some e"
  from m have "find (lookahead_not_digit s)
      (map (\<lambda>n. pos + n) (rev [1..<Suc (greedy_digits s pos)])) = Some e"
    by (simp add: match_at_def split: if_splits)
  then have "e \<in> set (map (\<lambda>n. pos + n) (rev [1..<Suc (greedy_digits s pos)]))"
    by (metis find_Some_iff nth_mem)
  then have "pos < e"
    by auto
  with le show "((s, e), (s, pos)) \<in> measure (\<lambda>(s, pos). Suc (length s) - pos)"
    by simp
next
  fix s :: pystr and pos :: nat
  assume "\<not> length s < pos"
  then show "((s, pos + 1), (s, pos)) \<in> measure (\<lambda>(s, pos). Suc (length s) - pos)"
    by simp
qed

declare finditer.simps [simp del]

text \<open>\<open>s[i:j]\<close> for \<open>i \<le> j \<le> len(s)\<close>, which is what \<open>match.group(0)\<close>
  returns for the span \<open>(i, j)\<close>.\<close>

definition slice :: "pystr \<Rightarrow> nat \<Rightarrow> nat \<Rightarrow> pystr" where
  "slice s i j = take (j - i) (drop i s)"

definition extract_number_tokens :: "pystr \<Rightarrow> NumberToken list" where
  "extract_number_tokens s = map (\<lambda>(i, j). \<lparr>text = slice s i j\<rparr>) (finditer s 0)"

section \<open>The analyzers\<close>

text \<open>
  Each analyzer takes the tokens and returns a string, or raises.  \<open>count_tokens\<close> and
  \<open>longest_token\<close> read only the text of the tokens; \<open>sum_tokens\<close> and
  \<open>max_token\<close> read \<open>value\<close>, token by token in the order of the sequence, so the
  first token whose text \<open>int\<close> refuses ends the call with its \<open>ValueError\<close>.
\<close>

definition BRAK :: pystr where
  "BRAK = ascii ''BRAK''"

definition count_tokens :: "NumberToken list \<Rightarrow> pystr" where
  "count_tokens tokens = py_str (int (length tokens))"

text \<open>\<open>sum\<close> over the generator of the values: the total \<open>tot\<close> starts at 0.\<close>

fun py_sum :: "int \<Rightarrow> NumberToken list \<Rightarrow> error + int" where
  "py_sum tot [] = Inr tot"
| "py_sum tot (t # ts) =
    (case NumberToken_value t of
       Inl e \<Rightarrow> Inl e
     | Inr v \<Rightarrow> py_sum (tot + v) ts)"

definition sum_tokens :: "NumberToken list \<Rightarrow> error + pystr" where
  "sum_tokens tokens =
    (case py_sum 0 tokens of
       Inl e \<Rightarrow> Inl e
     | Inr tot \<Rightarrow> Inr (py_str tot))"

text \<open>
  \<open>max\<close> over the generator of the values: the first value is the maximum so far, and
  a later value replaces it when it is greater.  On no values at all \<open>max\<close> raises
  \<open>ValueError\<close>; \<open>max_token\<close> returns before it gets there.
\<close>

fun py_max_loop :: "int \<Rightarrow> NumberToken list \<Rightarrow> error + int" where
  "py_max_loop m [] = Inr m"
| "py_max_loop m (t # ts) =
    (case NumberToken_value t of
       Inl e \<Rightarrow> Inl e
     | Inr v \<Rightarrow> py_max_loop (if m < v then v else m) ts)"

definition py_max :: "NumberToken list \<Rightarrow> error + int" where
  "py_max tokens =
    (case tokens of
       [] \<Rightarrow> Inl ValueError
     | t # ts \<Rightarrow>
        (case NumberToken_value t of
           Inl e \<Rightarrow> Inl e
         | Inr v \<Rightarrow> py_max_loop v ts))"

definition max_token :: "NumberToken list \<Rightarrow> error + pystr" where
  "max_token tokens =
    (if tokens = [] then Inr BRAK
     else case py_max tokens of
            Inl e \<Rightarrow> Inl e
          | Inr m \<Rightarrow> Inr (py_str m))"

text \<open>The loop of \<open>longest_token\<close> over \<open>token_list[1:]\<close>, from the first token.\<close>

fun longest_loop :: "NumberToken \<Rightarrow> NumberToken list \<Rightarrow> NumberToken" where
  "longest_loop longest [] = longest"
| "longest_loop longest (candidate # rest) =
    longest_loop
      (if NumberToken_length longest < NumberToken_length candidate then candidate
       else longest)
      rest"

definition longest_token :: "NumberToken list \<Rightarrow> pystr" where
  "longest_token tokens =
    (case tokens of
       [] \<Rightarrow> BRAK
     | t # ts \<Rightarrow>
        (let longest = longest_loop t ts
         in text longest @ ascii '' '' @ py_str (NumberToken_length longest)))"

text \<open>The registry of the analyzers by name.\<close>

definition TASKS :: "pystr \<rightharpoonup> (NumberToken list \<Rightarrow> error + pystr)" where
  "TASKS =
    map_of
      [(ascii ''count'', \<lambda>tokens. Inr (count_tokens tokens)),
       (ascii ''sum'', sum_tokens),
       (ascii ''max'', max_token),
       (ascii ''longest'', \<lambda>tokens. Inr (longest_token tokens))]"

section \<open>The command line program\<close>

text \<open>
  \<open>main\<close> is modelled from the parsed arguments on.  The file system is a state of
  any type \<open>'w\<close>, and the calls that \<open>main\<close> makes on it are parameters:
  \<open>is_file\<close>, \<open>read_text\<close>, \<open>mkdir\<close> (with \<open>parents=True, exist_ok=True\<close>),
  \<open>write_text\<close> and the path operator \<open>/\<close>.  A call that can change the file
  system returns the new state, also when it raises.  The result of \<open>main\<close> is the
  final state, the steps it took in order, and the exception that ended it, if any.
\<close>

type_synonym path = pystr

record args =
  input :: path
  output_dir :: path
  encoding :: pystr
  tasks :: "pystr list"

record 'w os_ops =
  is_file :: "'w \<Rightarrow> path \<Rightarrow> bool"
  read_text :: "'w \<Rightarrow> path \<Rightarrow> pystr \<Rightarrow> error + pystr"
  mkdir :: "'w \<Rightarrow> path \<Rightarrow> 'w \<times> error option"
  write_text :: "'w \<Rightarrow> path \<Rightarrow> pystr \<Rightarrow> pystr \<Rightarrow> 'w \<times> error option"
  joinpath :: "path \<Rightarrow> pystr \<Rightarrow> path"

datatype step =
    Is_file path
  | Read_text path
  | Tokenize pystr
  | Mkdir path
  | Run_task pystr
  | Write_text path pystr

text \<open>The loop over \<open>args.tasks\<close>, with the tokens shared by all the tasks.\<close>

fun run_tasks ::
  "'w os_ops \<Rightarrow> args \<Rightarrow> NumberToken list \<Rightarrow> pystr list \<Rightarrow> 'w \<Rightarrow> 'w \<times> step list \<times> error option"
where
  "run_tasks os a tokens [] w = (w, [], None)"
| "run_tasks os a tokens (task_name # names) w =
    (case TASKS task_name of
       None \<Rightarrow> (w, [], Some KeyError)
     | Some task \<Rightarrow>
        (case task tokens of
           Inl e \<Rightarrow> (w, [Run_task task_name], Some e)
         | Inr result \<Rightarrow>
            (let output_path = joinpath os (output_dir a) (task_name @ ascii ''.txt'');
                 content = result @ [10];
                 steps = [Run_task task_name, Write_text output_path content]
             in case write_text os w output_path content (encoding a) of
                  (w', Some e) \<Rightarrow> (w', steps, Some e)
                | (w', None) \<Rightarrow>
                    (case run_tasks os a tokens names w' of
                       (w'', later, r) \<Rightarrow> (w'', steps @ later, r)))))"

definition main :: "'w os_ops \<Rightarrow> args \<Rightarrow> 'w \<Rightarrow> 'w \<times> step list \<times> error option" where
  "main os a w =
    (if \<not> is_file os w (input a) then (w, [Is_file (input a)], Some FileNotFoundError)
     else case read_text os w (input a) (encoding a) of
            Inl e \<Rightarrow> (w, [Is_file (input a), Read_text (input a)], Some e)
          | Inr txt \<Rightarrow>
              (let tokens = extract_number_tokens txt;
                   steps = [Is_file (input a), Read_text (input a), Tokenize txt,
                            Mkdir (output_dir a)]
               in case mkdir os w (output_dir a) of
                    (w', Some e) \<Rightarrow> (w', steps, Some e)
                  | (w', None) \<Rightarrow>
                      (case run_tasks os a tokens (tasks a) w' of
                         (w'', later, r) \<Rightarrow> (w'', steps @ later, r))))"

text \<open>
  A file system in memory, to run \<open>main\<close> on: the files with their text and the
  directories, every call succeeding where it can.
\<close>

record memfs =
  files :: "path \<rightharpoonup> pystr"
  dirs :: "path set"

definition mem_os :: "memfs os_ops" where
  "mem_os =
    \<lparr>is_file = (\<lambda>w p. files w p \<noteq> None),
     read_text = (\<lambda>w p enc. case files w p of None \<Rightarrow> Inl FileNotFoundError | Some t \<Rightarrow> Inr t),
     mkdir = (\<lambda>w p. (w\<lparr>dirs := insert p (dirs w)\<rparr>, None)),
     write_text = (\<lambda>w p t enc. (w\<lparr>files := (files w)(p \<mapsto> t)\<rparr>, None)),
     joinpath = (\<lambda>d n. d @ ascii ''/'' @ n)\<rparr>"

section \<open>The notions of the specification\<close>

text \<open>
  A maximal digit run of \<open>s\<close> is a span \<open>(i, j)\<close> of digits that no digit touches:
  it is not empty, every character in it is a digit, the character before it, if there
  is one, is not a digit, and neither is the character after it.
\<close>

definition maximal_digit_run :: "pystr \<Rightarrow> nat \<Rightarrow> nat \<Rightarrow> bool" where
  "maximal_digit_run s i j =
    (i < j \<and> j \<le> length s
     \<and> (\<forall>k \<in> {i..<j}. is_decimal_digit (s ! k))
     \<and> (i = 0 \<or> \<not> is_decimal_digit (s ! (i - 1)))
     \<and> (j = length s \<or> \<not> is_decimal_digit (s ! j)))"

text \<open>The invariant of a token: its text is a run of digits and is not empty.\<close>

definition valid_token :: "NumberToken \<Rightarrow> bool" where
  "valid_token t = (text t \<noteq> [] \<and> list_all is_decimal_digit (text t))"

text \<open>The number that a string of digits denotes, read from the most significant
  digit on.\<close>

definition digits_value :: "pystr \<Rightarrow> nat" where
  "digits_value s = foldl (\<lambda>a c. 10 * a + the (unicode_decimal c)) 0 s"

text \<open>
  \<open>s\<close> is the decimal string of the natural number \<open>n\<close>: ASCII digits that denote
  \<open>n\<close>, without a leading zero unless \<open>s\<close> is the one digit \<open>0\<close>.
\<close>

definition decimal_string_of :: "pystr \<Rightarrow> nat \<Rightarrow> bool" where
  "decimal_string_of s n =
    (s \<noteq> [] \<and> list_all is_ascii_digit s \<and> (hd s = 48 \<longrightarrow> s = [48]) \<and> digits_value s = n)"


text \<open>
  A scanner to compare the tokenizer with: it goes through the string once, starts a
  run at a digit, takes the digits that follow into the run, and goes on after them.
\<close>

function scan_digit_runs :: "pystr \<Rightarrow> pystr list" where
  "scan_digit_runs [] = []"
| "scan_digit_runs (c # cs) =
    (if is_decimal_digit c
     then (c # takeWhile is_decimal_digit cs) # scan_digit_runs (dropWhile is_decimal_digit cs)
     else scan_digit_runs cs)"
  by pat_completeness auto
termination
  by (relation "measure length") (auto simp: less_Suc_eq_le length_dropWhile_le)

section \<open>The tokenizer finds the maximal digit runs\<close>

subsection \<open>The greedy repetition\<close>

lemma greedy_digits_le: "pos + greedy_digits s pos \<le> max pos (length s)"
  using length_takeWhile_le [of is_decimal_digit "drop pos s"]
  by (simp add: greedy_digits_def)

lemma greedy_digits_all:
  assumes "k < greedy_digits s pos"
  shows "is_decimal_digit (s ! (pos + k))"
proof -
  let ?d = "drop pos s"
  from assms have k: "k < length (takeWhile is_decimal_digit ?d)"
    by (simp add: greedy_digits_def)
  then have "takeWhile is_decimal_digit ?d ! k \<in> set (takeWhile is_decimal_digit ?d)"
    by simp
  then have "is_decimal_digit (takeWhile is_decimal_digit ?d ! k)"
    by (blast dest: set_takeWhileD)
  moreover from k have "takeWhile is_decimal_digit ?d ! k = ?d ! k"
    by (rule takeWhile_nth)
  moreover from k have "k < length ?d"
    using length_takeWhile_le [of is_decimal_digit ?d] by linarith
  ultimately show ?thesis
    by simp
qed

lemma greedy_digits_stop:
  assumes "pos + greedy_digits s pos < length s"
  shows "\<not> is_decimal_digit (s ! (pos + greedy_digits s pos))"
proof -
  let ?d = "drop pos s"
  from assms have "length (takeWhile is_decimal_digit ?d) < length ?d"
    by (simp add: greedy_digits_def)
  then have "\<not> is_decimal_digit (?d ! length (takeWhile is_decimal_digit ?d))"
    by (rule nth_length_takeWhile)
  with assms show ?thesis
    by (simp add: greedy_digits_def)
qed

lemma greedy_digits_ge:
  assumes "\<forall>k \<in> {i..<j}. is_decimal_digit (s ! k)" and "i \<le> j" and "j \<le> length s"
  shows "j - i \<le> greedy_digits s i"
proof -
  have "j - i \<le> length (takeWhile is_decimal_digit (drop i s))"
  proof (rule length_takeWhile_less_P_nth)
    fix k assume "k < j - i"
    with assms show "is_decimal_digit (drop i s ! k)"
      by simp
  next
    from assms show "j - i \<le> length (drop i s)"
      by simp
  qed
  then show ?thesis
    by (simp add: greedy_digits_def)
qed

lemma greedy_digits_pos:
  "0 < greedy_digits s pos \<longleftrightarrow> pos < length s \<and> is_decimal_digit (s ! pos)"
proof (cases "pos < length s")
  case True
  then have "drop pos s = s ! pos # drop (Suc pos) s"
    by (simp add: Cons_nth_drop_Suc)
  then show ?thesis
    using True by (simp add: greedy_digits_def)
next
  case False
  then show ?thesis
    by (simp add: greedy_digits_def)
qed

lemma lookahead_greedy: "lookahead_not_digit s (pos + greedy_digits s pos)"
  using greedy_digits_stop [of pos s]
  by (auto simp: lookahead_not_digit_def)

text \<open>The greedy match needs no backtracking: the lookahead holds where the digits end.\<close>

lemma match_at_eq:
  "match_at s pos =
    (if lookbehind_not_digit s pos \<and> pos < length s \<and> is_decimal_digit (s ! pos)
     then Some (pos + greedy_digits s pos) else None)"
proof (cases "0 < greedy_digits s pos")
  case True
  then have "rev [1..<Suc (greedy_digits s pos)] =
      greedy_digits s pos # rev [1..<greedy_digits s pos]"
    by simp
  then show ?thesis
    using True lookahead_greedy [of s pos]
    by (simp add: match_at_def greedy_digits_pos [symmetric])
next
  case False
  then show ?thesis
    by (simp add: match_at_def greedy_digits_pos [symmetric])
qed

lemma maximal_digit_run_greedy:
  assumes "lookbehind_not_digit s pos" and "pos < length s" and "is_decimal_digit (s ! pos)"
  shows "maximal_digit_run s pos (pos + greedy_digits s pos)"
proof -
  from assms have g: "0 < greedy_digits s pos"
    by (simp add: greedy_digits_pos)
  have "\<forall>k \<in> {pos..<pos + greedy_digits s pos}. is_decimal_digit (s ! k)"
  proof
    fix k assume "k \<in> {pos..<pos + greedy_digits s pos}"
    then have "k - pos < greedy_digits s pos" and "k = pos + (k - pos)"
      by auto
    then show "is_decimal_digit (s ! k)"
      using greedy_digits_all [of "k - pos" s pos] by simp
  qed
  moreover have "pos + greedy_digits s pos \<le> length s"
    using greedy_digits_le [of pos s] assms(2) by simp
  ultimately show ?thesis
    using g assms(1) lookahead_greedy [of s pos]
    by (auto simp: maximal_digit_run_def lookbehind_not_digit_def lookahead_not_digit_def)
qed

lemma maximal_digit_run_end:
  assumes "maximal_digit_run s i j"
  shows "j = i + greedy_digits s i"
proof -
  from assms have ij: "i < j" "j \<le> length s"
    and digs: "\<forall>k \<in> {i..<j}. is_decimal_digit (s ! k)"
    and stop: "j = length s \<or> \<not> is_decimal_digit (s ! j)"
    by (auto simp: maximal_digit_run_def)
  from digs ij have "j - i \<le> greedy_digits s i"
    by (intro greedy_digits_ge) auto
  moreover have "\<not> j - i < greedy_digits s i"
  proof
    assume lt: "j - i < greedy_digits s i"
    then have "is_decimal_digit (s ! (i + (j - i)))"
      by (rule greedy_digits_all)
    moreover from lt greedy_digits_le [of i s] ij have "j < length s"
      by simp
    ultimately show False
      using stop ij by simp
  qed
  ultimately show ?thesis
    using ij by simp
qed

lemma maximal_digit_run_start:
  assumes "maximal_digit_run s i j"
  shows "lookbehind_not_digit s i \<and> i < length s \<and> is_decimal_digit (s ! i)"
  using assms by (auto simp: maximal_digit_run_def lookbehind_not_digit_def)

lemma finditer_set:
  "set (finditer s pos) = {(i, j). pos \<le> i \<and> maximal_digit_run s i j}"
proof (induction s pos rule: finditer.induct)
  case (1 s pos)
  show ?case
  proof (cases "length s < pos")
    case True
    then show ?thesis
      by (auto simp: finditer.simps [of s pos] maximal_digit_run_def)
  next
    case False
    show ?thesis
    proof (cases "match_at s pos")
      case None
      with False have eq: "finditer s pos = finditer s (pos + 1)"
        by (simp add: finditer.simps [of s pos])
      from None have no: "\<not> (lookbehind_not_digit s pos \<and> pos < length s \<and> is_decimal_digit (s ! pos))"
        by (simp add: match_at_eq split: if_splits)
      have "\<And>j. \<not> maximal_digit_run s pos j"
        using no maximal_digit_run_start by blast
      then have "{(i, j). pos \<le> i \<and> maximal_digit_run s i j} =
          {(i, j). pos + 1 \<le> i \<and> maximal_digit_run s i j}"
        by (auto simp: le_less Suc_le_eq)
      with "1.IH"(1) [OF False None] eq show ?thesis
        by simp
    next
      case (Some e)
      with False have eq: "finditer s pos = (pos, e) # finditer s e"
        by (simp add: finditer.simps [of s pos])
      from Some have st: "lookbehind_not_digit s pos" "pos < length s" "is_decimal_digit (s ! pos)"
        and e: "e = pos + greedy_digits s pos"
        by (auto simp: match_at_eq split: if_splits)
      have run: "maximal_digit_run s pos e"
        unfolding e using st by (rule maximal_digit_run_greedy)
      have far: "e \<le> i" if "pos \<le> i" and r: "maximal_digit_run s i j" and ne: "(i, j) \<noteq> (pos, e)"
        for i j
      proof (rule ccontr)
        assume "\<not> e \<le> i"
        show False
        proof (cases "i = pos")
          case True
          with r e maximal_digit_run_end [of s i j] ne show False
            by simp
        next
          case False
          with \<open>pos \<le> i\<close> \<open>\<not> e \<le> i\<close> have "i - 1 - pos < greedy_digits s pos" and "0 < i"
            using e by auto
          then have "is_decimal_digit (s ! (pos + (i - 1 - pos)))"
            using greedy_digits_all by blast
          with False \<open>pos \<le> i\<close> have "is_decimal_digit (s ! (i - 1))"
            by simp
          with r \<open>0 < i\<close> show False
            by (simp add: maximal_digit_run_def)
        qed
      qed
      have "{(i, j). pos \<le> i \<and> maximal_digit_run s i j} =
          insert (pos, e) {(i, j). e \<le> i \<and> maximal_digit_run s i j}"
        using run e far by auto
      with "1.IH"(2) [OF False Some] eq show ?thesis
        by simp
    qed
  qed
qed

lemma finditer_after_match:
  assumes "(i, j) \<in> set (finditer s (pos + greedy_digits s pos))"
  shows "pos + greedy_digits s pos < i"
proof -
  let ?e = "pos + greedy_digits s pos"
  from assms have "?e \<le> i" and r: "maximal_digit_run s i j"
    by (auto simp: finditer_set)
  moreover have "i \<noteq> ?e"
  proof
    assume "i = ?e"
    with r have "?e < length s \<and> is_decimal_digit (s ! ?e)"
      using maximal_digit_run_start by blast
    with lookahead_greedy [of s pos] show False
      by (simp add: lookahead_not_digit_def)
  qed
  ultimately show ?thesis
    by simp
qed

lemma finditer_sorted: "sorted_wrt (\<lambda>a b. snd a < fst b) (finditer s pos)"
proof (induction s pos rule: finditer.induct)
  case (1 s pos)
  show ?case
  proof (cases "length s < pos")
    case True
    then show ?thesis
      by (simp add: finditer.simps [of s pos])
  next
    case False
    show ?thesis
    proof (cases "match_at s pos")
      case None
      with False "1.IH"(1) show ?thesis
        by (simp add: finditer.simps [of s pos])
    next
      case (Some e)
      then have e: "e = pos + greedy_digits s pos"
        by (simp add: match_at_eq split: if_splits)
      from False Some have "finditer s pos = (pos, e) # finditer s e"
        by (simp add: finditer.simps [of s pos])
      moreover have "\<forall>b \<in> set (finditer s e). e < fst b"
        unfolding e using finditer_after_match by fastforce
      ultimately show ?thesis
        using "1.IH"(2) [OF False Some] by simp
    qed
  qed
qed

lemma finditer_distinct: "distinct (finditer s pos)"
proof (induction s pos rule: finditer.induct)
  case (1 s pos)
  show ?case
  proof (cases "length s < pos")
    case True
    then show ?thesis
      by (simp add: finditer.simps [of s pos])
  next
    case False
    show ?thesis
    proof (cases "match_at s pos")
      case None
      with False "1.IH"(1) show ?thesis
        by (simp add: finditer.simps [of s pos])
    next
      case (Some e)
      then have e: "e = pos + greedy_digits s pos"
        by (simp add: match_at_eq split: if_splits)
      from False Some have "finditer s pos = (pos, e) # finditer s e"
        by (simp add: finditer.simps [of s pos])
      moreover have "(pos, e) \<notin> set (finditer s e)"
        unfolding e using finditer_after_match [of pos _ s pos] by auto
      ultimately show ?thesis
        using "1.IH"(2) [OF False Some] by simp
    qed
  qed
qed

lemma slice_run:
  assumes "maximal_digit_run s i j"
  shows "slice s i j \<noteq> [] \<and> list_all is_decimal_digit (slice s i j)"
proof -
  from assms have ij: "i < j" "j \<le> length s"
    and digs: "\<forall>k \<in> {i..<j}. is_decimal_digit (s ! k)"
    by (auto simp: maximal_digit_run_def)
  from ij have len: "length (slice s i j) = j - i"
    by (simp add: slice_def)
  have "is_decimal_digit (slice s i j ! n)" if "n < j - i" for n
  proof -
    from that ij have "slice s i j ! n = s ! (i + n)"
      by (simp add: slice_def)
    with that digs show ?thesis
      by simp
  qed
  with len ij show ?thesis
    by (auto simp: list_all_length)
qed

lemma extract_number_tokens_valid:
  assumes "t \<in> set (extract_number_tokens s)"
  shows "valid_token t"
proof -
  from assms obtain i j where "(i, j) \<in> set (finditer s 0)" and t: "t = \<lparr>text = slice s i j\<rparr>"
    by (auto simp: extract_number_tokens_def)
  then have "maximal_digit_run s i j"
    by (simp add: finditer_set)
  with t show ?thesis
    using slice_run by (simp add: valid_token_def)
qed

lemma slice_greedy:
  "slice s pos (pos + greedy_digits s pos) = takeWhile is_decimal_digit (drop pos s)"
  using takeWhile_eq_take [of is_decimal_digit "drop pos s"]
  by (simp add: slice_def greedy_digits_def)

lemma drop_greedy:
  "drop (pos + greedy_digits s pos) s = dropWhile is_decimal_digit (drop pos s)"
  using dropWhile_eq_drop [of is_decimal_digit "drop pos s"]
  by (simp add: greedy_digits_def add.commute)

lemma filter_takeWhile_same: "filter P (takeWhile P xs) = takeWhile P xs"
  by (induction xs) auto

lemma filter_split_run:
  "filter P xs = takeWhile P xs @ filter P (dropWhile P xs)"
proof -
  have "filter P xs = filter P (takeWhile P xs @ dropWhile P xs)"
    by simp
  also have "\<dots> = takeWhile P xs @ filter P (dropWhile P xs)"
    unfolding filter_append filter_takeWhile_same ..
  finally show ?thesis .
qed

lemma finditer_concat:
  assumes "length s \<le> pos \<or> \<not> is_decimal_digit (s ! pos) \<or> lookbehind_not_digit s pos"
  shows "concat (map (\<lambda>(i, j). slice s i j) (finditer s pos)) =
    filter is_decimal_digit (drop pos s)"
  using assms
proof (induction s pos rule: finditer.induct)
  case (1 s pos)
  show ?case
  proof (cases "length s < pos")
    case True
    then show ?thesis
      by (simp add: finditer.simps [of s pos])
  next
    case False
    show ?thesis
    proof (cases "match_at s pos")
      case None
      with False have eq: "finditer s pos = finditer s (pos + 1)"
        by (simp add: finditer.simps [of s pos])
      from None "1.prems" have no: "length s \<le> pos \<or> \<not> is_decimal_digit (s ! pos)"
        by (auto simp: match_at_eq split: if_splits)
      then have inv: "length s \<le> pos + 1 \<or> \<not> is_decimal_digit (s ! (pos + 1))
          \<or> lookbehind_not_digit s (pos + 1)"
        by (auto simp: lookbehind_not_digit_def)
      have "filter is_decimal_digit (drop pos s) = filter is_decimal_digit (drop (pos + 1) s)"
      proof (cases "length s \<le> pos")
        case True
        then show ?thesis by simp
      next
        case False
        then have "drop pos s = s ! pos # drop (Suc pos) s"
          by (simp add: Cons_nth_drop_Suc)
        with no False show ?thesis by simp
      qed
      with "1.IH"(1) [OF False None inv] eq show ?thesis
        by simp
    next
      case (Some e)
      then have e: "e = pos + greedy_digits s pos"
        by (simp add: match_at_eq split: if_splits)
      from False Some have eq: "finditer s pos = (pos, e) # finditer s e"
        by (simp add: finditer.simps [of s pos])
      have inv: "length s \<le> e \<or> \<not> is_decimal_digit (s ! e) \<or> lookbehind_not_digit s e"
        using lookahead_greedy [of s pos] by (auto simp: e lookahead_not_digit_def)
      have "filter is_decimal_digit (drop pos s) =
          slice s pos e @ filter is_decimal_digit (drop e s)"
        unfolding e slice_greedy drop_greedy by (rule filter_split_run)
      with "1.IH"(2) [OF False Some inv] eq show ?thesis
        by simp
    qed
  qed
qed

lemma finditer_unfold:
  "finditer s pos =
    (if length s < pos then []
     else if lookbehind_not_digit s pos \<and> pos < length s \<and> is_decimal_digit (s ! pos)
       then (pos, pos + greedy_digits s pos) # finditer s (pos + greedy_digits s pos)
       else finditer s (pos + 1))"
  by (simp add: finditer.simps [of s pos] match_at_eq)

subsection \<open>The tokenizer as a scanner\<close>

lemma scan_digit_runs_run:
  assumes "xs \<noteq> []" and "is_decimal_digit (hd xs)"
  shows "scan_digit_runs xs =
    takeWhile is_decimal_digit xs # scan_digit_runs (dropWhile is_decimal_digit xs)"
  using assms by (cases xs) auto

lemma finditer_scan:
  assumes "length s \<le> pos \<or> \<not> is_decimal_digit (s ! pos) \<or> lookbehind_not_digit s pos"
  shows "map (\<lambda>(i, j). slice s i j) (finditer s pos) = scan_digit_runs (drop pos s)"
  using assms
proof (induction s pos rule: finditer.induct)
  case (1 s pos)
  show ?case
  proof (cases "length s < pos")
    case True
    then show ?thesis
      by (simp add: finditer.simps [of s pos])
  next
    case False
    show ?thesis
    proof (cases "match_at s pos")
      case None
      with False have eq: "finditer s pos = finditer s (pos + 1)"
        by (simp add: finditer.simps [of s pos])
      from None "1.prems" have no: "length s \<le> pos \<or> \<not> is_decimal_digit (s ! pos)"
        by (auto simp: match_at_eq split: if_splits)
      then have inv: "length s \<le> pos + 1 \<or> \<not> is_decimal_digit (s ! (pos + 1))
          \<or> lookbehind_not_digit s (pos + 1)"
        by (auto simp: lookbehind_not_digit_def)
      have "scan_digit_runs (drop pos s) = scan_digit_runs (drop (pos + 1) s)"
      proof (cases "length s \<le> pos")
        case True
        then show ?thesis by simp
      next
        case False
        then have "drop pos s = s ! pos # drop (Suc pos) s"
          by (simp add: Cons_nth_drop_Suc)
        with no False show ?thesis by simp
      qed
      with "1.IH"(1) [OF False None inv] eq show ?thesis
        by simp
    next
      case (Some e)
      then have e: "e = pos + greedy_digits s pos"
        and st: "pos < length s" "is_decimal_digit (s ! pos)"
        by (auto simp: match_at_eq split: if_splits)
      from False Some have eq: "finditer s pos = (pos, e) # finditer s e"
        by (simp add: finditer.simps [of s pos])
      have inv: "length s \<le> e \<or> \<not> is_decimal_digit (s ! e) \<or> lookbehind_not_digit s e"
        using lookahead_greedy [of s pos] by (auto simp: e lookahead_not_digit_def)
      from st have "drop pos s \<noteq> []" and "is_decimal_digit (hd (drop pos s))"
        by (simp_all add: hd_drop_conv_nth)
      then have "scan_digit_runs (drop pos s) = slice s pos e # scan_digit_runs (drop e s)"
        unfolding e slice_greedy drop_greedy by (rule scan_digit_runs_run)
      with "1.IH"(2) [OF False Some inv] eq show ?thesis
        by simp
    qed
  qed
qed

lemma text_inj: "inj (text :: NumberToken \<Rightarrow> pystr)"
  by (rule injI) simp

lemma extract_number_tokens_texts:
  "map text (extract_number_tokens s) = scan_digit_runs s"
proof -
  have "map text (extract_number_tokens s) = map (\<lambda>(i, j). slice s i j) (finditer s 0)"
    by (simp add: extract_number_tokens_def split_def)
  then show ?thesis
    using finditer_scan [of s 0] by (simp add: lookbehind_not_digit_def)
qed

section \<open>The conversions between strings and integers\<close>

lemma unicode_decimal_ascii:
  assumes "c < 128"
  shows "unicode_decimal c = (if is_ascii_digit c then Some (c - 48) else None)"
  using assms
  by (simp add: unicode_decimal_def decimal_range_starts_def is_ascii_digit_def)

lemma is_decimal_digit_ascii: "c < 128 \<Longrightarrow> is_decimal_digit c = is_ascii_digit c"
  by (simp add: is_decimal_digit_def unicode_decimal_ascii)


lemma unicode_decimal_less_10:
  assumes "unicode_decimal c = Some d"
  shows "d < 10"
proof (cases "find (\<lambda>s. s \<le> c \<and> c < s + 10) decimal_range_starts")
  case None
  with assms show ?thesis
    by (auto simp: unicode_decimal_def split: if_splits)
next
  case (Some s)
  then have "s \<le> c \<and> c < s + 10"
    by (auto simp: find_Some_iff)
  with Some assms show ?thesis
    by (auto simp: unicode_decimal_def)
qed

lemma unicode_space_not_decimal:
  assumes "is_unicode_space c"
  shows "unicode_decimal c = None"
proof -
  from assms consider "c \<in> set [0x85, 0xA0, 0x1680, 0x2028, 0x2029, 0x202F, 0x205F, 0x3000]"
    | "0x2000 \<le> c \<and> c \<le> 0x200A"
    by (auto simp: is_unicode_space_def)
  then show ?thesis
  proof cases
    case 1
    then have "c = 0x85 \<or> c = 0xA0 \<or> c = 0x1680 \<or> c = 0x2028 \<or> c = 0x2029
        \<or> c = 0x202F \<or> c = 0x205F \<or> c = 0x3000"
      by simp
    then show ?thesis
      by (elim disjE) (simp_all add: unicode_decimal_def decimal_range_starts_def)
  next
    case 2
    then show ?thesis
      by (simp add: unicode_decimal_def decimal_range_starts_def)
  qed
qed

lemma to_ascii_digit:
  assumes "is_decimal_digit c"
  shows "to_ascii c = 48 + the (unicode_decimal c)" and "the (unicode_decimal c) < 10"
proof -
  from assms obtain d where d: "unicode_decimal c = Some d"
    by (auto simp: is_decimal_digit_def)
  then show "the (unicode_decimal c) < 10"
    using unicode_decimal_less_10 by simp
  show "to_ascii c = 48 + the (unicode_decimal c)"
  proof (cases "c < 127")
    case True
    with d show ?thesis
      by (auto simp: to_ascii_def unicode_decimal_ascii is_ascii_digit_def split: if_splits)
  next
    case False
    moreover from d have "\<not> is_unicode_space c"
      using unicode_space_not_decimal by fastforce
    ultimately show ?thesis
      using d by (simp add: to_ascii_def)
  qed
qed

lemma scan_digits_all:
  assumes "list_all is_ascii_digit cs" and "prev \<noteq> 95"
  shows "scan_digits prev acc cs = Some (foldl (\<lambda>a c. 10 * a + (c - 48)) acc cs, [])"
  using assms
proof (induction cs arbitrary: prev acc)
  case Nil
  then show ?case by simp
next
  case (Cons c cs)
  then have "is_ascii_digit c" and "c \<noteq> 95"
    by (auto simp: is_ascii_digit_def)
  with Cons show ?case
    by simp
qed

lemma py_int_digits:
  assumes "s \<noteq> []" and "list_all is_decimal_digit s"
  shows "py_int s = Inr (int (digits_value s))"
proof -
  from assms(1) obtain c0 cs where s: "s = c0 # cs"
    by (cases s) auto
  let ?a = "map to_ascii s"
  have dig: "is_ascii_digit (to_ascii c)" if "c \<in> set s" for c
  proof -
    from that assms(2) have "is_decimal_digit c"
      by (simp add: list_all_iff)
    then show ?thesis
      using to_ascii_digit [of c] by (simp add: is_ascii_digit_def)
  qed
  then have d0: "is_ascii_digit (to_ascii c0)" and rest: "list_all is_ascii_digit (map to_ascii cs)"
    by (auto simp: s list_all_iff)
  from d0 have ns: "\<not> is_c_space (to_ascii c0)" "to_ascii c0 \<noteq> 43" "to_ascii c0 \<noteq> 45"
      "to_ascii c0 \<noteq> 95"
    by (auto simp: is_ascii_digit_def is_c_space_def)
  have "scan_digits (to_ascii c0) (to_ascii c0 - 48) (map to_ascii cs) =
      Some (foldl (\<lambda>a c. 10 * a + (c - 48)) (to_ascii c0 - 48) (map to_ascii cs), [])"
    using rest ns(4) by (rule scan_digits_all)
  moreover have "foldl (\<lambda>a c. 10 * a + (c - 48)) (to_ascii c0 - 48) (map to_ascii cs) =
      foldl (\<lambda>a c. 10 * a + (to_ascii c - 48)) 0 s"
    by (simp add: s foldl_map)
  moreover have "foldl (\<lambda>a c. 10 * a + (to_ascii c - 48)) 0 s = digits_value s"
    unfolding digits_value_def
  proof (rule foldl_cong [OF refl refl])
    fix a c assume "c \<in> set s"
    with assms(2) have "is_decimal_digit c"
      by (simp add: list_all_iff)
    then show "10 * a + (to_ascii c - 48) = 10 * a + the (unicode_decimal c)"
      by (simp add: to_ascii_digit(1))
  qed
  ultimately show ?thesis
    using d0 ns by (simp add: py_int_def s)
qed

lemma NumberToken_value_valid:
  "valid_token t \<Longrightarrow> NumberToken_value t = Inr (int (digits_value (text t)))"
  by (simp add: valid_token_def NumberToken_value_def py_int_digits)

lemma digits_value_snoc:
  "digits_value (xs @ [c]) = 10 * digits_value xs + the (unicode_decimal c)"
  by (simp add: digits_value_def)

lemma py_str_digits_not_Nil: "py_str_digits n \<noteq> []"
  by (subst py_str_digits.simps) simp

lemma py_str_digits_ascii: "list_all is_ascii_digit (py_str_digits n)"
proof (induction n rule: py_str_digits.induct)
  case (1 n)
  show ?case
  proof (cases "n < 10")
    case True
    then show ?thesis
      by (subst py_str_digits.simps) (simp add: is_ascii_digit_def)
  next
    case False
    have "n mod 10 < 10" by simp
    then have "is_ascii_digit (48 + n mod 10)"
      unfolding is_ascii_digit_def by linarith
    with False "1.IH" show ?thesis
      by (subst py_str_digits.simps) simp
  qed
qed

lemma py_str_digits_value: "digits_value (py_str_digits n) = n"
proof (induction n rule: py_str_digits.induct)
  case (1 n)
  show ?case
  proof (cases "n < 10")
    case True
    then have "unicode_decimal (48 + n) = Some n"
      by (simp add: unicode_decimal_ascii is_ascii_digit_def)
    with True show ?thesis
      by (subst py_str_digits.simps) (simp add: digits_value_def)
  next
    case False
    have "n mod 10 < 10" by simp
    then have "unicode_decimal (48 + n mod 10) = Some (n mod 10)"
      by (simp add: unicode_decimal_ascii is_ascii_digit_def)
    with False "1.IH" show ?thesis
      by (subst py_str_digits.simps) (simp add: digits_value_snoc)
  qed
qed

lemma py_str_digits_leading:
  assumes "hd (py_str_digits n) = 48"
  shows "py_str_digits n = [48]"
  using assms
proof (induction n rule: py_str_digits.induct)
  case (1 n)
  show ?case
  proof (cases "n < 10")
    case True
    with "1.prems" show ?thesis
      by (subst py_str_digits.simps, subst (asm) py_str_digits.simps) simp
  next
    case False
    with "1.prems" have "hd (py_str_digits (n div 10)) = 48"
      by (subst (asm) py_str_digits.simps) (simp add: py_str_digits_not_Nil)
    with False "1.IH" have "py_str_digits (n div 10) = [48]"
      by simp
    then have "digits_value (py_str_digits (n div 10)) = digits_value [48]"
      by simp
    moreover have "digits_value [48] = 0"
      by (simp add: digits_value_def unicode_decimal_ascii is_ascii_digit_def)
    ultimately have "n div 10 = 0"
      by (simp only: py_str_digits_value)
    with False show ?thesis
      by simp
  qed
qed

lemma decimal_string_of_py_str: "decimal_string_of (py_str (int n)) n"
  by (simp add: decimal_string_of_def py_str_def py_str_digits_not_Nil py_str_digits_ascii
      py_str_digits_value py_str_digits_leading)

lemma py_int_ValueError_only:
  assumes "py_int s = Inl e"
  shows "e = ValueError"
proof -
  define a where "a = dropWhile is_c_space (map to_ascii s)"
  define neg where "neg = (case a of [] \<Rightarrow> False | c # _ \<Rightarrow> c = 45)"
  define b where "b = (case a of [] \<Rightarrow> [] | c # cs \<Rightarrow> if c = 43 \<or> c = 45 then cs else a)"
  have eq: "py_int s =
    (case b of
       [] \<Rightarrow> Inl ValueError
     | c # cs \<Rightarrow>
         if \<not> is_ascii_digit c then Inl ValueError
         else
           (case scan_digits c (c - 48) cs of
              None \<Rightarrow> Inl ValueError
            | Some (n, rest) \<Rightarrow>
                if dropWhile is_c_space rest = []
                then Inr (if neg then - int n else int n)
                else Inl ValueError))"
    unfolding py_int_def a_def [symmetric] neg_def [symmetric] b_def [symmetric] Let_def ..
  from assms show ?thesis
    unfolding eq by (simp split: list.splits option.splits if_splits prod.splits)
qed

section \<open>The loops of the analyzers\<close>

lemma py_sum_eq:
  "py_sum acc ts =
    (if \<exists>t \<in> set ts. isl (NumberToken_value t) then Inl ValueError
     else Inr (acc + (\<Sum>t\<leftarrow>ts. projr (NumberToken_value t))))"
proof (induction ts arbitrary: acc)
  case Nil
  show ?case by simp
next
  case (Cons t ts)
  show ?case
  proof (cases "NumberToken_value t")
    case (Inl e)
    then have "e = ValueError"
      unfolding NumberToken_value_def by (rule py_int_ValueError_only)
    with Inl show ?thesis by simp
  next
    case (Inr v)
    with Cons.IH [of "acc + v"] show ?thesis
      by (simp add: add.assoc)
  qed
qed

lemma py_max_loop_eq:
  "py_max_loop m ts =
    (if \<exists>t \<in> set ts. isl (NumberToken_value t) then Inl ValueError
     else Inr (fold max (map (\<lambda>t. projr (NumberToken_value t)) ts) m))"
proof (induction ts arbitrary: m)
  case Nil
  show ?case by simp
next
  case (Cons t ts)
  show ?case
  proof (cases "NumberToken_value t")
    case (Inl e)
    then have "e = ValueError"
      unfolding NumberToken_value_def by (rule py_int_ValueError_only)
    with Inl show ?thesis by simp
  next
    case (Inr v)
    have "(if m < v then v else m) = max v m"
      by (simp add: max_def)
    with Inr Cons.IH [of "max v m"] show ?thesis
      by simp
  qed
qed

lemma py_max_eq:
  assumes "ts \<noteq> []"
  shows "py_max ts =
    (if \<exists>t \<in> set ts. isl (NumberToken_value t) then Inl ValueError
     else Inr (Max (set (map (\<lambda>t. projr (NumberToken_value t)) ts))))"
proof -
  from assms obtain t rest where ts: "ts = t # rest"
    by (cases ts) auto
  show ?thesis
  proof (cases "NumberToken_value t")
    case (Inl e)
    then have "e = ValueError"
      unfolding NumberToken_value_def by (rule py_int_ValueError_only)
    with Inl show ?thesis by (simp add: ts py_max_def)
  next
    case (Inr v)
    then show ?thesis
      by (simp add: ts py_max_def py_max_loop_eq Max.set_eq_fold [symmetric] del: set_map)
  qed
qed

lemma longest_loop_first_max:
  "\<exists>pre post. cur # rest = pre @ longest_loop cur rest # post
     \<and> (\<forall>u \<in> set pre. NumberToken_length u < NumberToken_length (longest_loop cur rest))
     \<and> (\<forall>u \<in> set post. NumberToken_length u \<le> NumberToken_length (longest_loop cur rest))"
proof (induction rest arbitrary: cur)
  case Nil
  have "[cur] = [] @ longest_loop cur [] # []
     \<and> (\<forall>u \<in> set []. NumberToken_length u < NumberToken_length (longest_loop cur []))
     \<and> (\<forall>u \<in> set []. NumberToken_length u \<le> NumberToken_length (longest_loop cur []))"
    by simp
  then show ?case by blast
next
  case (Cons c rest)
  let ?L = NumberToken_length
  show ?case
  proof (cases "?L cur < ?L c")
    case True
    then have r: "longest_loop cur (c # rest) = longest_loop c rest"
      by simp
    from Cons.IH [of c] obtain pre post where
      split: "c # rest = pre @ longest_loop c rest # post"
      and pre: "\<forall>u \<in> set pre. ?L u < ?L (longest_loop c rest)"
      and post: "\<forall>u \<in> set post. ?L u \<le> ?L (longest_loop c rest)"
      by blast
    have "?L c \<le> ?L (longest_loop c rest)"
    proof (cases pre)
      case Nil
      with split have "c # rest = longest_loop c rest # post"
        by (simp only: append_Nil)
      then have "longest_loop c rest = c"
        by (metis list.inject)
      then show ?thesis
        by (simp only: order_refl)
    next
      case (Cons p pre')
      with split have "c \<in> set pre"
        by simp
      with pre show ?thesis
        by (simp add: less_imp_le)
    qed
    with True have "?L cur < ?L (longest_loop c rest)"
      by simp
    with split pre post have
      "cur # c # rest = (cur # pre) @ longest_loop c rest # post
       \<and> (\<forall>u \<in> set (cur # pre). ?L u < ?L (longest_loop c rest))
       \<and> (\<forall>u \<in> set post. ?L u \<le> ?L (longest_loop c rest))"
      by simp
    then show ?thesis
      unfolding r by blast
  next
    case False
    then have r: "longest_loop cur (c # rest) = longest_loop cur rest"
      by simp
    from Cons.IH [of cur] obtain pre post where
      split: "cur # rest = pre @ longest_loop cur rest # post"
      and pre: "\<forall>u \<in> set pre. ?L u < ?L (longest_loop cur rest)"
      and post: "\<forall>u \<in> set post. ?L u \<le> ?L (longest_loop cur rest)"
      by blast
    show ?thesis
    proof (cases pre)
      case Nil
      with split have "cur # rest = longest_loop cur rest # post"
        by (simp only: append_Nil)
      then have "longest_loop cur rest = cur" and "post = rest"
        by (metis list.inject)+
      with False post have
        "cur # c # rest = [] @ longest_loop cur rest # (c # post)
         \<and> (\<forall>u \<in> set []. ?L u < ?L (longest_loop cur rest))
         \<and> (\<forall>u \<in> set (c # post). ?L u \<le> ?L (longest_loop cur rest))"
        by simp
      then show ?thesis
        unfolding r by blast
    next
      case (Cons p pre')
      with split have "cur # rest = p # (pre' @ longest_loop cur rest # post)"
        by (simp only: append_Cons)
      then have p: "p = cur" and rest: "rest = pre' @ longest_loop cur rest # post"
        by (metis list.inject)+
      from pre Cons p have "?L cur < ?L (longest_loop cur rest)"
        by simp
      with False have "?L c < ?L (longest_loop cur rest)"
        by simp
      with pre post Cons p rest have
        "cur # c # rest = (cur # c # pre') @ longest_loop cur rest # post
         \<and> (\<forall>u \<in> set (cur # c # pre'). ?L u < ?L (longest_loop cur rest))
         \<and> (\<forall>u \<in> set post. ?L u \<le> ?L (longest_loop cur rest))"
        by simp
      then show ?thesis
        unfolding r by blast
    qed
  qed
qed

lemma values_defined:
  assumes "map NumberToken_value ts = map Inr vs"
  shows "\<not> (\<exists>t \<in> set ts. isl (NumberToken_value t))"
    and "map (\<lambda>t. projr (NumberToken_value t)) ts = vs"
proof -
  from assms have "\<forall>t \<in> set ts. \<not> isl (NumberToken_value t)"
  proof (induction ts arbitrary: vs)
    case Nil
    show ?case by simp
  next
    case (Cons t ts)
    then show ?case by (cases vs) auto
  qed
  then show "\<not> (\<exists>t \<in> set ts. isl (NumberToken_value t))"
    by blast
  from assms show "map (\<lambda>t. projr (NumberToken_value t)) ts = vs"
  proof (induction ts arbitrary: vs)
    case Nil
    then show ?case by simp
  next
    case (Cons t ts)
    then show ?case by (cases vs) auto
  qed
qed

lemma sum_tokens_values:
  assumes "map NumberToken_value ts = map Inr vs"
  shows "sum_tokens ts = Inr (py_str (sum_list vs))"
proof -
  note v = values_defined [OF assms]
  have "(\<Sum>t\<leftarrow>ts. projr (NumberToken_value t)) = sum_list vs"
    by (simp only: v(2))
  with v(1) show ?thesis
    by (simp add: sum_tokens_def py_sum_eq)
qed

lemma max_token_values:
  assumes "ts \<noteq> []" and "map NumberToken_value ts = map Inr vs"
  shows "max_token ts = Inr (py_str (Max (set vs)))"
proof -
  note v = values_defined [OF assms(2)]
  have "Max (set (map (\<lambda>t. projr (NumberToken_value t)) ts)) = Max (set vs)"
    by (simp only: v(2))
  with assms(1) v(1) show ?thesis
    by (simp add: max_token_def py_max_eq)
qed



lemma TASKS_return:
  assumes defined: "\<forall>t \<in> set tokens. \<exists>v. NumberToken_value t = Inr v"
    and name: "name \<in> set [ascii ''count'', ascii ''sum'', ascii ''max'', ascii ''longest'']"
  shows "\<exists>task r. TASKS name = Some task \<and> task tokens = Inr r"
proof -
  have names: "ascii ''count'' \<noteq> ascii ''sum''" "ascii ''count'' \<noteq> ascii ''max''"
    "ascii ''count'' \<noteq> ascii ''longest''" "ascii ''sum'' \<noteq> ascii ''max''"
    "ascii ''sum'' \<noteq> ascii ''longest''" "ascii ''max'' \<noteq> ascii ''longest''"
    by (simp_all add: ascii_def)
  from defined have "\<forall>t \<in> set tokens. NumberToken_value t = Inr (projr (NumberToken_value t))"
    by auto
  then have vals: "map NumberToken_value tokens =
      map Inr (map (\<lambda>t. projr (NumberToken_value t)) tokens)"
    by simp
  have "\<exists>r. sum_tokens tokens = Inr r"
    using sum_tokens_values [OF vals] by simp
  moreover have "\<exists>r. max_token tokens = Inr r"
  proof (cases "tokens = []")
    case True
    then show ?thesis by (simp add: max_token_def)
  next
    case False
    then show ?thesis
      using max_token_values [OF False vals] by simp
  qed
  ultimately show ?thesis
    using name names by (auto simp: TASKS_def)
qed

lemma run_tasks_writes:
  assumes defined: "\<forall>t \<in> set tokens. \<exists>v. NumberToken_value t = Inr v"
    and writes: "\<forall>w p t enc. snd (write_text os w p t enc) = None"
    and names: "set names \<subseteq> set [ascii ''count'', ascii ''sum'', ascii ''max'', ascii ''longest'']"
  shows "\<exists>w'. run_tasks os a tokens names w =
    (w',
     concat (map (\<lambda>name.
        [Run_task name,
         Write_text (joinpath os (output_dir a) (name @ ascii ''.txt''))
           (projr (the (TASKS name) tokens) @ [10])]) names),
     None)"
  using names
proof (induction names arbitrary: w)
  case Nil
  show ?case by simp
next
  case (Cons name names)
  then have "name \<in> set [ascii ''count'', ascii ''sum'', ascii ''max'', ascii ''longest'']"
    by simp
  from TASKS_return [OF defined this] obtain task r where
    task: "TASKS name = Some task" "task tokens = Inr r"
    by blast
  let ?p = "joinpath os (output_dir a) (name @ ascii ''.txt'')"
  obtain w1 where w1: "write_text os w ?p (r @ [10]) (encoding a) = (w1, None)"
    using writes by (metis prod.collapse)
  from Cons have "set names \<subseteq> set [ascii ''count'', ascii ''sum'', ascii ''max'', ascii ''longest'']"
    by simp
  from Cons.IH [OF this, of w1] obtain w' where
    "run_tasks os a tokens names w1 =
      (w',
       concat (map (\<lambda>name.
          [Run_task name,
           Write_text (joinpath os (output_dir a) (name @ ascii ''.txt''))
             (projr (the (TASKS name) tokens) @ [10])]) names),
       None)"
    by blast
  with task w1 show ?case
    by simp
qed

text \<open>The definitions that evaluate the conversions and the invariant on given strings.\<close>

lemmas int_eval =
  NumberToken_value_def py_int_def to_ascii_def is_c_space_def is_ascii_digit_def ascii_def

lemmas str_eval = py_str_def py_str_digits.simps ascii_def


section \<open>The claims about the tokenizer\<close>

text \<open>The definitions that evaluate the tokenizer on a given ASCII string.\<close>

lemmas tokenize_eval =
  extract_number_tokens_def ascii_def finditer_unfold lookbehind_not_digit_def greedy_digits_def
  is_decimal_digit_ascii is_ascii_digit_def slice_def

text \<open>
  Claim C1, as the code has it.  For every string, the tokens are the slices of the spans
  that \<open>finditer\<close> yields; these spans are exactly the maximal digit runs of the
  string, each once, in the order of their first characters, and each ends before the
  next begins.  The text of every token is not empty and consists of
  decimal digits, which are the characters that \<open>\d\<close> matches: the Unicode decimal
  digits.  When every character of the input is ASCII, they are the ASCII digits.
\<close>

theorem extract_number_tokens_maximal_runs:
  "extract_number_tokens s = map (\<lambda>(i, j). \<lparr>text = slice s i j\<rparr>) (finditer s 0)
   \<and> set (finditer s 0) = {(i, j). maximal_digit_run s i j}
   \<and> distinct (finditer s 0)
   \<and> sorted_wrt (\<lambda>a b. fst a < fst b) (finditer s 0)
   \<and> sorted_wrt (\<lambda>a b. snd a < fst b) (finditer s 0)
   \<and> (\<forall>t \<in> set (extract_number_tokens s). text t \<noteq> [] \<and> list_all is_decimal_digit (text t))
   \<and> ((\<forall>c \<in> set s. c < 128) \<longrightarrow>
        (\<forall>t \<in> set (extract_number_tokens s). list_all is_ascii_digit (text t)))"
proof -
  have valid: "text t \<noteq> [] \<and> list_all is_decimal_digit (text t)"
    if "t \<in> set (extract_number_tokens s)" for t
    using extract_number_tokens_valid [OF that] by (simp add: valid_token_def)
  have ascii: "list_all is_ascii_digit (text t)"
    if low: "\<forall>c \<in> set s. c < 128" and t: "t \<in> set (extract_number_tokens s)" for t
  proof -
    from t obtain i j where "text t = slice s i j"
      by (auto simp: extract_number_tokens_def)
    then have "set (text t) \<subseteq> set s"
      using set_take_subset [of "j - i" "drop i s"] set_drop_subset [of i s]
      by (auto simp: slice_def)
    with low have "\<forall>c \<in> set (text t). c < 128"
      by blast
    with valid [OF t] show ?thesis
      by (simp add: list_all_iff is_decimal_digit_ascii)
  qed
  have "sorted_wrt (\<lambda>a b. fst a < fst b) (finditer s 0)"
  proof (rule sorted_wrt_mono_rel [OF _ finditer_sorted])
    fix a b assume "a \<in> set (finditer s 0)" and "snd a < fst b"
    then have "maximal_digit_run s (fst a) (snd a)"
      by (auto simp: finditer_set)
    then have "fst a < snd a"
      by (simp add: maximal_digit_run_def)
    with \<open>snd a < fst b\<close> show "fst a < fst b"
      by simp
  qed
  then show ?thesis
    using valid ascii
    by (simp add: extract_number_tokens_def [of s] finditer_set finditer_distinct finditer_sorted)
qed

text \<open>On \<open>12a34\<close> the runs are \<open>12\<close> and \<open>34\<close>.\<close>

theorem extract_number_tokens_maximal_runs_witness:
  "list_all (\<lambda>c. c < 128) (ascii ''12a34'')
   \<and> extract_number_tokens (ascii ''12a34'') = [\<lparr>text = ascii ''12''\<rparr>, \<lparr>text = ascii ''34''\<rparr>]
   \<and> {(i, j). maximal_digit_run (ascii ''12a34'') i j} = {(0, 2), (3, 5)}
   \<and> list_all (\<lambda>t. list_all is_ascii_digit (text t)) (extract_number_tokens (ascii ''12a34''))"
proof -
  have low: "\<forall>c \<in> set (ascii ''12a34''). c < 128"
    by (simp add: ascii_def)
  have spans: "finditer (ascii ''12a34'') 0 = [(0, 2), (3, 5)]"
    by (simp add: tokenize_eval)
  from extract_number_tokens_maximal_runs [of "ascii ''12a34''"] low
  have "set (finditer (ascii ''12a34'') 0) = {(i, j). maximal_digit_run (ascii ''12a34'') i j}"
    and "\<forall>t \<in> set (extract_number_tokens (ascii ''12a34'')). list_all is_ascii_digit (text t)"
    and "extract_number_tokens (ascii ''12a34'') =
      map (\<lambda>(i, j). \<lparr>text = slice (ascii ''12a34'') i j\<rparr>) (finditer (ascii ''12a34'') 0)"
    by blast+
  then show ?thesis
    unfolding spans by (simp add: list_all_iff) (simp add: ascii_def slice_def)
qed

text \<open>
  Claim C1 as it is stated speaks of ASCII decimal digits for every input string.  The
  one-character string U+0663 (ARABIC-INDIC DIGIT THREE) is a token of its own, and its
  character is not an ASCII digit.
\<close>

theorem extract_number_tokens_ascii_counterexample:
  "extract_number_tokens [0x663] = [\<lparr>text = [0x663]\<rparr>] \<and> \<not> is_ascii_digit 0x663"
  by (simp add: extract_number_tokens_def finditer_unfold lookbehind_not_digit_def
      greedy_digits_def is_decimal_digit_def unicode_decimal_def decimal_range_starts_def
      is_ascii_digit_def slice_def)

text \<open>
  Claim C9: the texts of the tokens, one after the other, are the decimal digits of the
  input in their order; tokenizing drops, repeats and moves no digit.
\<close>

theorem extract_number_tokens_keeps_digits:
  "concat (map text (extract_number_tokens s)) = filter is_decimal_digit s"
proof -
  have "map text (extract_number_tokens s) = map (\<lambda>(i, j). slice s i j) (finditer s 0)"
    by (simp add: extract_number_tokens_def split_def)
  then show ?thesis
    using finditer_concat [of s 0] by (simp add: lookbehind_not_digit_def)
qed

text \<open>On the sample of the tests the digits are \<open>3564245\<close>.\<close>

theorem extract_number_tokens_keeps_digits_witness:
  "concat (map text (extract_number_tokens (ascii ''356xv@@4vdfvdfD#$%@@#245''))) = ascii ''3564245''
   \<and> filter is_decimal_digit (ascii ''356xv@@4vdfvdfD#$%@@#245'') = ascii ''3564245''"
  using extract_number_tokens_keeps_digits [of "ascii ''356xv@@4vdfvdfD#$%@@#245''"]
  by (simp add: ascii_def is_decimal_digit_ascii is_ascii_digit_def)



section \<open>The claims about the analyzers\<close>

text \<open>
  Claim C2: \<open>longest_token\<close> returns \<open>BRAK\<close> on no tokens.  On other
  tokens it returns the text of a token \<open>t\<close> of the sequence, a space, and the length
  of that text in decimal, where every token before \<open>t\<close> is shorter than \<open>t\<close>
  and no token after it is longer: \<open>t\<close> is the first token of the greatest length.
\<close>

theorem longest_token_first_longest:
  "longest_token [] = ascii ''BRAK''
   \<and> (tokens \<noteq> [] \<longrightarrow>
        (\<exists>pre t post.
           tokens = pre @ t # post
           \<and> (\<forall>u \<in> set pre. length (text u) < length (text t))
           \<and> (\<forall>u \<in> set post. length (text u) \<le> length (text t))
           \<and> longest_token tokens = text t @ ascii '' '' @ py_str (int (length (text t)))
           \<and> decimal_string_of (py_str (int (length (text t)))) (length (text t))))"
proof -
  have "\<exists>pre t post.
      tokens = pre @ t # post
      \<and> (\<forall>u \<in> set pre. length (text u) < length (text t))
      \<and> (\<forall>u \<in> set post. length (text u) \<le> length (text t))
      \<and> longest_token tokens = text t @ ascii '' '' @ py_str (int (length (text t)))
      \<and> decimal_string_of (py_str (int (length (text t)))) (length (text t))"
    if "tokens \<noteq> []"
  proof -
    from that obtain t0 rest where tokens: "tokens = t0 # rest"
      by (cases tokens) auto
    define t where "t = longest_loop t0 rest"
    from longest_loop_first_max [of t0 rest] obtain pre post where
      "t0 # rest = pre @ t # post"
      and "\<forall>u \<in> set pre. NumberToken_length u < NumberToken_length t"
      and "\<forall>u \<in> set post. NumberToken_length u \<le> NumberToken_length t"
      unfolding t_def by blast
    moreover have "longest_token tokens = text t @ ascii '' '' @ py_str (int (length (text t)))"
      by (simp add: longest_token_def tokens t_def NumberToken_length_def Let_def)
    ultimately have
      "tokens = pre @ t # post
       \<and> (\<forall>u \<in> set pre. length (text u) < length (text t))
       \<and> (\<forall>u \<in> set post. length (text u) \<le> length (text t))
       \<and> longest_token tokens = text t @ ascii '' '' @ py_str (int (length (text t)))
       \<and> decimal_string_of (py_str (int (length (text t)))) (length (text t))"
      by (simp add: tokens NumberToken_length_def decimal_string_of_py_str)
    then show ?thesis
      by blast
  qed
  moreover have "longest_token [] = ascii ''BRAK''"
    by (simp add: longest_token_def BRAK_def)
  ultimately show ?thesis
    by blast
qed

text \<open>
  Among \<open>4\<close>, \<open>356\<close> and \<open>245\<close> the answer is \<open>356 3\<close>, the first of the two
  tokens of three digits; among \<open>001\<close> and \<open>20\<close> it is \<open>001 3\<close>.
\<close>

theorem longest_token_first_longest_witness:
  "[\<lparr>text = ascii ''4''\<rparr>, \<lparr>text = ascii ''356''\<rparr>, \<lparr>text = ascii ''245''\<rparr>] \<noteq> []
   \<and> longest_token [\<lparr>text = ascii ''4''\<rparr>, \<lparr>text = ascii ''356''\<rparr>, \<lparr>text = ascii ''245''\<rparr>]
       = ascii ''356 3''
   \<and> longest_token [\<lparr>text = ascii ''001''\<rparr>, \<lparr>text = ascii ''20''\<rparr>] = ascii ''001 3''
   \<and> (\<exists>pre t post.
         [\<lparr>text = ascii ''4''\<rparr>, \<lparr>text = ascii ''356''\<rparr>, \<lparr>text = ascii ''245''\<rparr>] = pre @ t # post
         \<and> list_all (\<lambda>u. length (text u) < length (text t)) pre
         \<and> list_all (\<lambda>u. length (text u) \<le> length (text t)) post
         \<and> longest_token [\<lparr>text = ascii ''4''\<rparr>, \<lparr>text = ascii ''356''\<rparr>, \<lparr>text = ascii ''245''\<rparr>]
             = text t @ ascii '' '' @ py_str (int (length (text t))))"
proof -
  let ?ts = "[\<lparr>text = ascii ''4''\<rparr>, \<lparr>text = ascii ''356''\<rparr>, \<lparr>text = ascii ''245''\<rparr>]"
  have ne: "?ts \<noteq> []"
    by simp
  from longest_token_first_longest [of ?ts] ne obtain pre t post where
    "?ts = pre @ t # post \<and> (\<forall>u \<in> set pre. length (text u) < length (text t))
      \<and> (\<forall>u \<in> set post. length (text u) \<le> length (text t))
      \<and> longest_token ?ts = text t @ ascii '' '' @ py_str (int (length (text t)))"
    by blast
  then have "\<exists>pre t post. ?ts = pre @ t # post
      \<and> list_all (\<lambda>u. length (text u) < length (text t)) pre
      \<and> list_all (\<lambda>u. length (text u) \<le> length (text t)) post
      \<and> longest_token ?ts = text t @ ascii '' '' @ py_str (int (length (text t)))"
    unfolding list_all_iff by blast
  moreover have "longest_token ?ts = ascii ''356 3''"
    by (simp add: longest_token_def NumberToken_length_def Let_def str_eval)
  moreover have "longest_token [\<lparr>text = ascii ''001''\<rparr>, \<lparr>text = ascii ''20''\<rparr>] = ascii ''001 3''"
    by (simp add: longest_token_def NumberToken_length_def Let_def str_eval)
  ultimately show ?thesis
    using ne by blast
qed

text \<open>
  Claim C5: \<open>count_tokens\<close> returns the decimal string of the number of tokens,
  and \<open>0\<close> on no tokens.
\<close>

theorem count_tokens_length:
  "count_tokens tokens = py_str (int (length tokens))
   \<and> decimal_string_of (count_tokens tokens) (length tokens)
   \<and> count_tokens [] = ascii ''0''"
  by (simp add: count_tokens_def decimal_string_of_py_str) (simp add: str_eval)

text \<open>
  Three tokens give \<open>3\<close>.
\<close>

theorem count_tokens_length_witness:
  "count_tokens [\<lparr>text = ascii ''356''\<rparr>, \<lparr>text = ascii ''4''\<rparr>, \<lparr>text = ascii ''245''\<rparr>] = ascii ''3''
   \<and> decimal_string_of (ascii ''3'') 3"
proof -
  let ?ts = "[\<lparr>text = ascii ''356''\<rparr>, \<lparr>text = ascii ''4''\<rparr>, \<lparr>text = ascii ''245''\<rparr>]"
  have len: "length ?ts = 3"
    by simp
  from count_tokens_length [of ?ts]
  have "count_tokens ?ts = py_str (int (length ?ts))"
    and "decimal_string_of (count_tokens ?ts) (length ?ts)"
    by blast+
  moreover have "py_str (int (length ?ts)) = ascii ''3''"
    unfolding len by (simp add: str_eval)
  ultimately show ?thesis
    unfolding len by simp
qed








text \<open>
  Claim C10: \<open>count_tokens\<close>, \<open>sum_tokens\<close> and \<open>max_token\<close> give the
  same outcome on a sequence of tokens and on any permutation of it: the same string,
  or \<open>ValueError\<close> on both.
\<close>

theorem analyzers_order_insensitive:
  "mset tokens = mset tokens' \<Longrightarrow>
     count_tokens tokens = count_tokens tokens'
     \<and> sum_tokens tokens = sum_tokens tokens'
     \<and> max_token tokens = max_token tokens'"
proof -
  assume perm: "mset tokens = mset tokens'"
  then have len: "length tokens = length tokens'"
    by (rule mset_eq_length)
  from perm have set: "set tokens = set tokens'"
    by (rule mset_eq_setD)
  have "(\<Sum>t\<leftarrow>tokens. projr (NumberToken_value t)) =
      sum_mset (image_mset (\<lambda>t. projr (NumberToken_value t)) (mset tokens))"
    by (simp add: sum_mset_sum_list [symmetric] del: sum_mset_sum_list)
  also have "\<dots> = (\<Sum>t\<leftarrow>tokens'. projr (NumberToken_value t))"
    unfolding perm by (simp add: sum_mset_sum_list [symmetric] del: sum_mset_sum_list)
  finally have sum: "(\<Sum>t\<leftarrow>tokens. projr (NumberToken_value t)) =
      (\<Sum>t\<leftarrow>tokens'. projr (NumberToken_value t))" .
  have "sum_tokens tokens = sum_tokens tokens'"
    by (simp add: sum_tokens_def py_sum_eq set sum)
  moreover have "max_token tokens = max_token tokens'"
  proof (cases "tokens = []")
    case True
    with len show ?thesis by simp
  next
    case False
    with len have "tokens' \<noteq> []"
      by auto
    with False show ?thesis
      by (simp add: max_token_def py_max_eq set)
  qed
  ultimately show ?thesis
    by (simp add: count_tokens_def len)
qed

text \<open>
  The tokens \<open>001\<close>, \<open>20\<close>, \<open>7\<close> in two orders; \<open>longest_token\<close> does
  depend on the order.
\<close>

theorem analyzers_order_insensitive_witness:
  "mset [\<lparr>text = ascii ''001''\<rparr>, \<lparr>text = ascii ''20''\<rparr>, \<lparr>text = ascii ''7''\<rparr>]
     = mset [\<lparr>text = ascii ''7''\<rparr>, \<lparr>text = ascii ''001''\<rparr>, \<lparr>text = ascii ''20''\<rparr>]
   \<and> count_tokens [\<lparr>text = ascii ''001''\<rparr>, \<lparr>text = ascii ''20''\<rparr>, \<lparr>text = ascii ''7''\<rparr>]
       = count_tokens [\<lparr>text = ascii ''7''\<rparr>, \<lparr>text = ascii ''001''\<rparr>, \<lparr>text = ascii ''20''\<rparr>]
   \<and> sum_tokens [\<lparr>text = ascii ''001''\<rparr>, \<lparr>text = ascii ''20''\<rparr>, \<lparr>text = ascii ''7''\<rparr>]
       = sum_tokens [\<lparr>text = ascii ''7''\<rparr>, \<lparr>text = ascii ''001''\<rparr>, \<lparr>text = ascii ''20''\<rparr>]
   \<and> max_token [\<lparr>text = ascii ''001''\<rparr>, \<lparr>text = ascii ''20''\<rparr>, \<lparr>text = ascii ''7''\<rparr>]
       = max_token [\<lparr>text = ascii ''7''\<rparr>, \<lparr>text = ascii ''001''\<rparr>, \<lparr>text = ascii ''20''\<rparr>]
   \<and> sum_tokens [\<lparr>text = ascii ''7''\<rparr>, \<lparr>text = ascii ''001''\<rparr>, \<lparr>text = ascii ''20''\<rparr>]
       = Inr (ascii ''28'')
   \<and> longest_token [\<lparr>text = ascii ''001''\<rparr>, \<lparr>text = ascii ''20''\<rparr>, \<lparr>text = ascii ''777''\<rparr>]
       \<noteq> longest_token [\<lparr>text = ascii ''777''\<rparr>, \<lparr>text = ascii ''001''\<rparr>, \<lparr>text = ascii ''20''\<rparr>]"
proof -
  let ?a = "[\<lparr>text = ascii ''001''\<rparr>, \<lparr>text = ascii ''20''\<rparr>, \<lparr>text = ascii ''7''\<rparr>]"
  let ?b = "[\<lparr>text = ascii ''7''\<rparr>, \<lparr>text = ascii ''001''\<rparr>, \<lparr>text = ascii ''20''\<rparr>]"
  have perm: "mset ?a = mset ?b"
    by simp
  moreover have "sum_tokens ?b = Inr (ascii ''28'')"
    by (simp add: sum_tokens_def int_eval str_eval)
  moreover have "longest_token [\<lparr>text = ascii ''001''\<rparr>, \<lparr>text = ascii ''20''\<rparr>, \<lparr>text = ascii ''777''\<rparr>]
       \<noteq> longest_token [\<lparr>text = ascii ''777''\<rparr>, \<lparr>text = ascii ''001''\<rparr>, \<lparr>text = ascii ''20''\<rparr>]"
    by (simp add: longest_token_def NumberToken_length_def Let_def str_eval)
  ultimately show ?thesis
    using analyzers_order_insensitive [OF perm] by blast
qed

section \<open>The claim about the command line program\<close>

text \<open>
  Claim C7: when the input path is not an existing regular file, \<open>main\<close> ends
  with \<open>FileNotFoundError\<close>, the file system is as it was, and the one step taken
  is the test of the path: nothing was read, tokenized, created or written.
\<close>

theorem main_missing_input:
  "\<not> is_file os w (input a) \<Longrightarrow>
     main os a w = (w, [Is_file (input a)], Some FileNotFoundError)"
  by (simp add: main_def)

text \<open>
  In a file system without files, \<open>main\<close> on \<open>dane.txt\<close> fails and leaves no
  directory and no file.
\<close>

theorem main_missing_input_witness:
  "\<not> is_file mem_os \<lparr>files = Map.empty, dirs = {}\<rparr> (ascii ''dane.txt'')
   \<and> main mem_os
        \<lparr>input = ascii ''dane.txt'', output_dir = ascii ''wyniki'', encoding = ascii ''utf-8'',
         tasks = [ascii ''count'', ascii ''sum'', ascii ''max'', ascii ''longest'']\<rparr>
        \<lparr>files = Map.empty, dirs = {}\<rparr>
       = (\<lparr>files = Map.empty, dirs = {}\<rparr>, [Is_file (ascii ''dane.txt'')], Some FileNotFoundError)"
proof -
  let ?w = "\<lparr>files = Map.empty, dirs = {}\<rparr>"
  let ?a = "\<lparr>input = ascii ''dane.txt'', output_dir = ascii ''wyniki'', encoding = ascii ''utf-8'',
         tasks = [ascii ''count'', ascii ''sum'', ascii ''max'', ascii ''longest'']\<rparr>"
  have missing: "\<not> is_file mem_os ?w (input ?a)"
    by (simp add: mem_os_def)
  from main_missing_input [OF missing] missing show ?thesis
    by simp
qed

section \<open>Further properties\<close>

text \<open>
  The tokenizer returns the tokens of the scanner: the runs of digits of the string,
  from left to right.
\<close>

theorem extract_number_tokens_scan:
  "extract_number_tokens s = map (\<lambda>run. \<lparr>text = run\<rparr>) (scan_digit_runs s)"
proof -
  have "map text (extract_number_tokens s) =
      map text (map (\<lambda>run. \<lparr>text = run\<rparr>) (scan_digit_runs s))"
    by (simp add: extract_number_tokens_texts comp_def)
  then show ?thesis
    by (simp only: inj_map_eq_map [OF text_inj])
qed

text \<open>
  On \<open>12a34\<close> both give \<open>12\<close> and \<open>34\<close>.
\<close>

theorem extract_number_tokens_scan_witness:
  "extract_number_tokens (ascii ''12a34'') = [\<lparr>text = ascii ''12''\<rparr>, \<lparr>text = ascii ''34''\<rparr>]
   \<and> scan_digit_runs (ascii ''12a34'') = [ascii ''12'', ascii ''34'']"
  using extract_number_tokens_scan [of "ascii ''12a34''"]
  by (simp add: ascii_def is_decimal_digit_ascii is_ascii_digit_def)

text \<open>
  Two runs of digits with one character between them that is not a digit are two
  tokens, whatever that character is.
\<close>

theorem extract_number_tokens_adjacency:
  assumes "a \<noteq> []" and "b \<noteq> []"
    and "list_all is_decimal_digit a" and "list_all is_decimal_digit b"
    and "\<not> is_decimal_digit c"
  shows "extract_number_tokens (a @ c # b) = [\<lparr>text = a\<rparr>, \<lparr>text = b\<rparr>]"
proof -
  from assms(1,3) have a: "scan_digit_runs (a @ c # b) = a # scan_digit_runs (c # b)"
    using assms(5) by (cases a) (auto simp: list_all_iff takeWhile_append dropWhile_append)
  have "scan_digit_runs b = [b]"
  proof (cases b)
    case Nil
    with assms(2) show ?thesis by simp
  next
    case (Cons x xs)
    with assms(4) have "is_decimal_digit x" and "takeWhile is_decimal_digit xs = xs"
      and "dropWhile is_decimal_digit xs = []"
      by (auto simp: list_all_iff)
    with Cons show ?thesis
      by (simp del: dropWhile_eq_Nil_conv takeWhile_eq_all_conv)
  qed
  with a assms(5) have "scan_digit_runs (a @ c # b) = [a, b]"
    by simp
  then have "map text (extract_number_tokens (a @ c # b)) = map text [\<lparr>text = a\<rparr>, \<lparr>text = b\<rparr>]"
    by (simp add: extract_number_tokens_texts)
  then show ?thesis
    by (simp only: inj_map_eq_map [OF text_inj])
qed

text \<open>
  The runs \<open>12\<close> and \<open>34\<close> around the letter \<open>a\<close>.
\<close>

theorem extract_number_tokens_adjacency_witness:
  "ascii ''12'' \<noteq> [] \<and> ascii ''34'' \<noteq> []
   \<and> list_all is_decimal_digit (ascii ''12'') \<and> list_all is_decimal_digit (ascii ''34'')
   \<and> \<not> is_decimal_digit 97
   \<and> extract_number_tokens (ascii ''12'' @ 97 # ascii ''34'')
       = [\<lparr>text = ascii ''12''\<rparr>, \<lparr>text = ascii ''34''\<rparr>]"
proof -
  have h: "ascii ''12'' \<noteq> []" "ascii ''34'' \<noteq> []"
    "list_all is_decimal_digit (ascii ''12'')" "list_all is_decimal_digit (ascii ''34'')"
    "\<not> is_decimal_digit 97"
    by (simp_all add: ascii_def is_decimal_digit_ascii is_ascii_digit_def)
  from extract_number_tokens_adjacency [OF h] h show ?thesis
    by simp
qed

text \<open>
  A run of \<open>main\<close> that meets no error: the input is a file that can be read,
  the directory can be made, every write succeeds and the tasks are among the four
  names.  Then \<open>main\<close> returns normally, and after the directory it has written
  one file per task, in the order of the tasks: the file \<open><task>.txt\<close> in the
  output directory, holding the result of the analyzer on the tokens of the input and a
  newline.
\<close>

theorem main_writes_each_result:
  assumes "is_file os w (input a)"
    and "read_text os w (input a) (encoding a) = Inr txt"
    and "snd (mkdir os w (output_dir a)) = None"
    and "\<forall>w p t enc. snd (write_text os w p t enc) = None"
    and "set (tasks a) \<subseteq> set [ascii ''count'', ascii ''sum'', ascii ''max'', ascii ''longest'']"
  shows "\<exists>w'. main os a w =
    (w',
     [Is_file (input a), Read_text (input a), Tokenize txt, Mkdir (output_dir a)]
     @ concat (map (\<lambda>name.
        [Run_task name,
         Write_text (joinpath os (output_dir a) (name @ ascii ''.txt''))
           (projr (the (TASKS name) (extract_number_tokens txt)) @ [10])]) (tasks a)),
     None)"
proof -
  obtain w1 where w1: "mkdir os w (output_dir a) = (w1, None)"
    using assms(3) by (metis prod.collapse)
  have defined: "\<forall>t \<in> set (extract_number_tokens txt). \<exists>v. NumberToken_value t = Inr v"
    using extract_number_tokens_valid NumberToken_value_valid by blast
  from run_tasks_writes [OF defined assms(4,5), of a w1] obtain w' where
    "run_tasks os a (extract_number_tokens txt) (tasks a) w1 =
      (w',
       concat (map (\<lambda>name.
          [Run_task name,
           Write_text (joinpath os (output_dir a) (name @ ascii ''.txt''))
             (projr (the (TASKS name) (extract_number_tokens txt)) @ [10])]) (tasks a)),
       None)"
    by blast
  with assms(1,2) w1 show ?thesis
    by (simp add: main_def)
qed

text \<open>
  The file holds \<open>12a345\<close>, and the tasks \<open>count\<close> and \<open>longest\<close> write
  \<open>2\<close> and \<open>345 3\<close>.
\<close>

theorem main_writes_each_result_witness:
  "is_file mem_os \<lparr>files = [ascii ''dane.txt'' \<mapsto> ascii ''12a345''], dirs = {}\<rparr>
     (ascii ''dane.txt'')
   \<and> (\<exists>w'.
        main mem_os
          \<lparr>input = ascii ''dane.txt'', output_dir = ascii ''wyniki'', encoding = ascii ''utf-8'',
           tasks = [ascii ''count'', ascii ''longest'']\<rparr>
          \<lparr>files = [ascii ''dane.txt'' \<mapsto> ascii ''12a345''], dirs = {}\<rparr>
        = (w',
           [Is_file (ascii ''dane.txt''), Read_text (ascii ''dane.txt''),
            Tokenize (ascii ''12a345''), Mkdir (ascii ''wyniki''),
            Run_task (ascii ''count''),
            Write_text (ascii ''wyniki/count.txt'') (ascii ''2'' @ [10]),
            Run_task (ascii ''longest''),
            Write_text (ascii ''wyniki/longest.txt'') (ascii ''345 3'' @ [10])],
           None))"
proof -
  let ?w = "\<lparr>files = [ascii ''dane.txt'' \<mapsto> ascii ''12a345''], dirs = {}\<rparr>"
  let ?a = "\<lparr>input = ascii ''dane.txt'', output_dir = ascii ''wyniki'', encoding = ascii ''utf-8'',
           tasks = [ascii ''count'', ascii ''longest'']\<rparr>"
  have isf: "is_file mem_os ?w (input ?a)"
    by (simp add: mem_os_def)
  have rd: "read_text mem_os ?w (input ?a) (encoding ?a) = Inr (ascii ''12a345'')"
    by (simp add: mem_os_def)
  have made: "snd (mkdir mem_os ?w (output_dir ?a)) = None"
    by (simp add: mem_os_def)
  have written: "\<forall>w p t enc. snd (write_text mem_os w p t enc) = None"
    by (simp add: mem_os_def)
  have names: "set (tasks ?a)
      \<subseteq> set [ascii ''count'', ascii ''sum'', ascii ''max'', ascii ''longest'']"
    by simp
  have tokens: "extract_number_tokens (ascii ''12a345'') =
      [\<lparr>text = ascii ''12''\<rparr>, \<lparr>text = ascii ''345''\<rparr>]"
    by (simp add: tokenize_eval)
  from main_writes_each_result [OF isf rd made written names] obtain w' where
    "main mem_os ?a ?w =
      (w',
       [Is_file (input ?a), Read_text (input ?a), Tokenize (ascii ''12a345''),
        Mkdir (output_dir ?a)]
       @ concat (map (\<lambda>name.
          [Run_task name,
           Write_text (joinpath mem_os (output_dir ?a) (name @ ascii ''.txt''))
             (projr (the (TASKS name) (extract_number_tokens (ascii ''12a345''))) @ [10])])
          (tasks ?a)),
       None)"
    by blast
  then have "main mem_os ?a ?w =
      (w',
       [Is_file (ascii ''dane.txt''), Read_text (ascii ''dane.txt''),
        Tokenize (ascii ''12a345''), Mkdir (ascii ''wyniki''),
        Run_task (ascii ''count''),
        Write_text (ascii ''wyniki/count.txt'') (ascii ''2'' @ [10]),
        Run_task (ascii ''longest''),
        Write_text (ascii ''wyniki/longest.txt'') (ascii ''345 3'' @ [10])],
       None)"
    unfolding tokens
    by (simp add: mem_os_def TASKS_def count_tokens_def longest_token_def
        NumberToken_length_def Let_def str_eval)
  with isf show ?thesis
    by auto
qed

end
